theory Spec2Isabelle
  imports Main "HOL-Library.Word" "HOL-Library.Sublist"
begin

section \<open>The concurrent deque of TDequeConcurrent.h\<close>

text \<open>
  The class \<^verbatim>\<open>TDequeConcurrent<T>\<close> wraps a \<^verbatim>\<open>std::deque<T>\<close> (field
  \<^verbatim>\<open>_collection\<close>), a \<^verbatim>\<open>std::mutex\<close> (field \<^verbatim>\<open>_mutex\<close>) and a
  \<^verbatim>\<open>std::condition_variable\<close> (field \<^verbatim>\<open>_condNewData\<close>).  Every member
  function is a short sequence of statements on these three fields.  The model keeps that shape:
  each member function is the list of its statements, a thread is one activation of a member
  function, and a scheduler interleaves the statements of the threads.

  The standard library types behave as the C++ standard says: a mutex has at most one owner,
  locking an owned mutex blocks, \<^verbatim>\<open>wait\<close> releases the mutex, suspends the caller until
  it is notified or woken spuriously and then takes the mutex again, and
  \<^verbatim>\<open>notify_one\<close> wakes one suspended thread when there is one.
\<close>

subsection \<open>Data\<close>

type_synonym tid = nat

text \<open>
  The address of an element of \<^verbatim>\<open>_collection\<close>: \<open>Slot i\<close> is the address of the
  element that is at position \<open>i\<close>, counted from the front, when the address is taken.
\<close>

datatype ptr = Null | Slot nat

text \<open>
  \<^verbatim>\<open>front\<close> and \<^verbatim>\<open>back\<close> have return type \<^verbatim>\<open>T\<close> and return the expression
  \<^verbatim>\<open>&_collection.front()\<close> of type \<^verbatim>\<open>T*\<close>.  They are instantiable only for an
  element type to which its own pointer type converts; that conversion belongs to the element
  type and is a parameter here.  It receives the storage the pointer refers to, so that a
  converting constructor which dereferences its argument is covered.
\<close>

type_synonym 'a from_ptr = "'a list \<Rightarrow> ptr \<Rightarrow> 'a"

text \<open>
  What a call hands back to its caller: nothing, an element, a boolean, a count, or the
  exception that left it.  \<^verbatim>\<open>size\<close> returns \<^verbatim>\<open>uint\<close>, which is \<^verbatim>\<open>unsigned int\<close>, 32
  bits wide; the \<^verbatim>\<open>size_t\<close> count of the container is converted to it on return.  The
  container itself is a list of any length, as \<^verbatim>\<open>size_t\<close> is wider than 32 bits on a 64-bit
  platform.
\<close>

datatype 'a outcome = Void | Elem 'a | Flag bool | Count "32 word" | Raised

text \<open>Statements of the member functions.\<close>

datatype 'a stmt =
    Lock
  | WhileEmptyWait
  | CondWait
  | Fct "'a list \<Rightarrow> 'a list option"
  | Unlock
  | NotifyOne
  | PopFront
  | PopBack
  | ClearAll
  | RetFront "'a from_ptr"
  | RetBack "'a from_ptr"
  | RetEmpty
  | RetSize
  | ScopeExit

text \<open>
  \<^item> \<open>Lock\<close>: the constructor of \<^verbatim>\<open>std::unique_lock\<close> or \<^verbatim>\<open>std::lock_guard\<close> on \<^verbatim>\<open>_mutex\<close>;
  \<^item> \<open>WhileEmptyWait\<close>: \<^verbatim>\<open>while (_collection.empty()) { _condNewData.wait(lock); }\<close>;
  \<^item> \<open>CondWait\<close>: a single \<^verbatim>\<open>_condNewData.wait(lock);\<close>;
  \<^item> \<open>Fct f\<close>: the call \<^verbatim>\<open>fct()\<close> of the lambda handed to \<^verbatim>\<open>addData_protected\<close>;
    \<open>f\<close> maps the container to the new container, or to \<open>None\<close> when the lambda throws
    (an insertion at an end of a \<^verbatim>\<open>std::deque\<close> that throws has no effect on it);
  \<^item> \<open>Unlock\<close>: \<^verbatim>\<open>lock.unlock();\<close>
  \<^item> \<open>NotifyOne\<close>: \<^verbatim>\<open>_condNewData.notify_one();\<close>
  \<^item> \<open>PopFront\<close>, \<open>PopBack\<close>, \<open>ClearAll\<close>: \<^verbatim>\<open>_collection.pop_front()\<close>,
    \<^verbatim>\<open>_collection.pop_back()\<close>, \<^verbatim>\<open>_collection.clear()\<close>;
  \<^item> \<open>RetFront\<close>, \<open>RetBack\<close>: \<^verbatim>\<open>return &_collection.front();\<close> and
    \<^verbatim>\<open>return &_collection.back();\<close>
  \<^item> \<open>RetEmpty\<close>, \<open>RetSize\<close>: reading \<^verbatim>\<open>_collection.empty()\<close> or
    \<^verbatim>\<open>_collection.size()\<close> into the return value;
  \<^item> \<open>ScopeExit\<close>: leaving the function body, where the destructor of the lock object releases
    the mutex if the lock object still owns it.  An exception leaves the body through the same
    destructor.
\<close>

datatype mode = Running | InWait | Woken

record 'a thread =
  code :: "'a stmt list"
  mode :: mode
  ret :: "'a outcome"

text \<open>
  Entries of the history, a ghost field that records which thread did which synchronisation
  action, oldest first.
\<close>

datatype event =
    Acquired | Suspended | Resumed | Inserted | Threw | Removed | Cleared | Released
  | Notified "tid option"

record 'a config =
  collection :: "'a list"
  mutex :: "tid option"
  condNewData :: "tid list"
  threads :: "tid \<Rightarrow> 'a thread"
  trace :: "(tid \<times> event) list"
  fault :: bool

text \<open>
  \<open>mutex\<close> is the owner of \<^verbatim>\<open>_mutex\<close>, \<open>condNewData\<close> the threads suspended in
  \<^verbatim>\<open>_condNewData.wait\<close>.  \<open>fault\<close> is raised when a statement is executed outside the
  precondition the standard library gives it: removing or addressing an end of an empty
  container, or waiting on or unlocking a mutex the thread does not own.
\<close>

subsection \<open>The member functions\<close>

definition addData_protected :: "('a list \<Rightarrow> 'a list option) \<Rightarrow> 'a stmt list" where
  "addData_protected fct = [Lock, Fct fct, Unlock, NotifyOne, ScopeExit]"

text \<open>
  The argument of an insertion is the element that its C++ arguments construct, or \<open>None\<close> when
  that construction throws.
\<close>

definition emplace_front :: "'a option \<Rightarrow> 'a stmt list" where
  "emplace_front arg =
     addData_protected (\<lambda>xs. case arg of None \<Rightarrow> None | Some x \<Rightarrow> Some (x # xs))"

definition emplace_back :: "'a option \<Rightarrow> 'a stmt list" where
  "emplace_back arg =
     addData_protected (\<lambda>xs. case arg of None \<Rightarrow> None | Some x \<Rightarrow> Some (xs @ [x]))"

definition clear :: "'a stmt list" where
  "clear = [Lock, ClearAll, ScopeExit]"

definition push_front :: "'a option \<Rightarrow> 'a stmt list" where
  "push_front arg =
     addData_protected (\<lambda>xs. case arg of None \<Rightarrow> None | Some x \<Rightarrow> Some (x # xs))"

definition front :: "'a from_ptr \<Rightarrow> 'a stmt list" where
  "front conv = [Lock, WhileEmptyWait, RetFront conv, ScopeExit]"

definition pop_front :: "'a stmt list" where
  "pop_front = [Lock, WhileEmptyWait, PopFront, ScopeExit]"

definition push_back :: "'a option \<Rightarrow> 'a stmt list" where
  "push_back arg =
     addData_protected (\<lambda>xs. case arg of None \<Rightarrow> None | Some x \<Rightarrow> Some (xs @ [x]))"

definition back_deque :: "'a from_ptr \<Rightarrow> 'a stmt list" where
  "back_deque conv = [Lock, WhileEmptyWait, RetBack conv, ScopeExit]"

definition pop_back :: "'a stmt list" where
  "pop_back = [Lock, WhileEmptyWait, PopBack, ScopeExit]"

definition empty_deque :: "'a stmt list" where
  "empty_deque = [Lock, CondWait, RetEmpty, ScopeExit]"

definition size_deque :: "'a stmt list" where
  "size_deque = [Lock, WhileEmptyWait, RetSize, ScopeExit]"

datatype 'a call =
    Emplace_front "'a option"
  | Emplace_back "'a option"
  | Clear
  | Push_front "'a option"
  | Front "'a from_ptr"
  | Pop_front
  | Push_back "'a option"
  | Back "'a from_ptr"
  | Pop_back
  | Empty
  | Size
  | NoCall

fun body :: "'a call \<Rightarrow> 'a stmt list" where
  "body (Emplace_front arg) = emplace_front arg"
| "body (Emplace_back arg) = emplace_back arg"
| "body Clear = clear"
| "body (Push_front arg) = push_front arg"
| "body (Front conv) = front conv"
| "body Pop_front = pop_front"
| "body (Push_back arg) = push_back arg"
| "body (Back conv) = back_deque conv"
| "body Pop_back = pop_back"
| "body Empty = empty_deque"
| "body Size = size_deque"
| "body NoCall = []"

subsection \<open>Executing one statement\<close>

definition upd_thread :: "tid \<Rightarrow> ('a thread \<Rightarrow> 'a thread) \<Rightarrow> 'a config \<Rightarrow> 'a config" where
  "upd_thread t f c = c\<lparr>threads := (threads c)(t := f (threads c t))\<rparr>"

definition goto :: "tid \<Rightarrow> 'a stmt list \<Rightarrow> 'a config \<Rightarrow> 'a config" where
  "goto t rest c = upd_thread t (\<lambda>th. th\<lparr>code := rest\<rparr>) c"

definition emit :: "tid \<Rightarrow> event \<Rightarrow> 'a config \<Rightarrow> 'a config" where
  "emit t e c = c\<lparr>trace := trace c @ [(t, e)]\<rparr>"

definition release :: "tid \<Rightarrow> 'a config \<Rightarrow> 'a config" where
  "release t c = emit t Released (c\<lparr>mutex := None\<rparr>)"

text \<open>
  \<^verbatim>\<open>_condNewData.wait(lock)\<close>: the caller gives the mutex up and joins the suspended
  threads.  It leaves them through \<open>NotifyOne\<close> of another thread or through a spurious wake-up
  and then has to take the mutex again before \<^verbatim>\<open>wait\<close> returns.
\<close>

definition cond_wait :: "tid \<Rightarrow> 'a config \<Rightarrow> 'a config" where
  "cond_wait t c =
     (if mutex c = Some t
      then emit t Suspended
             (upd_thread t (\<lambda>th. th\<lparr>mode := InWait\<rparr>)
                (c\<lparr>mutex := None, condNewData := condNewData c @ [t]\<rparr>))
      else c\<lparr>fault := True\<rparr>)"

definition wake :: "tid \<Rightarrow> 'a config \<Rightarrow> 'a config" where
  "wake u c =
     upd_thread u (\<lambda>th. th\<lparr>mode := Woken\<rparr>) (c\<lparr>condNewData := remove1 u (condNewData c)\<rparr>)"

text \<open>
  \<open>exec t k s rest c\<close>: thread \<open>t\<close> executes statement \<open>s\<close>, with \<open>rest\<close> left to do after it.
  The number \<open>k\<close> is the scheduler's choice of the thread that \<open>NotifyOne\<close> wakes.
\<close>

fun exec :: "tid \<Rightarrow> nat \<Rightarrow> 'a stmt \<Rightarrow> 'a stmt list \<Rightarrow> 'a config \<Rightarrow> 'a config" where
  "exec t k Lock rest c =
     (if mutex c = None then emit t Acquired (goto t rest (c\<lparr>mutex := Some t\<rparr>)) else c)"
| "exec t k WhileEmptyWait rest c =
     (if collection c = [] then cond_wait t c else goto t rest c)"
| "exec t k CondWait rest c = cond_wait t (goto t rest c)"
| "exec t k (Fct f) rest c =
     (case f (collection c) of
        Some ys \<Rightarrow> emit t Inserted (goto t rest (c\<lparr>collection := ys\<rparr>))
      | None \<Rightarrow> emit t Threw (upd_thread t (\<lambda>th. th\<lparr>code := [ScopeExit], ret := Raised\<rparr>) c))"
| "exec t k Unlock rest c =
     (if mutex c = Some t then release t (goto t rest c) else c\<lparr>fault := True\<rparr>)"
| "exec t k NotifyOne rest c =
     (case condNewData c of
        [] \<Rightarrow> emit t (Notified None) (goto t rest c)
      | w # ws \<Rightarrow>
          (let u = (w # ws) ! (k mod length (w # ws))
           in emit t (Notified (Some u)) (goto t rest (wake u c))))"
| "exec t k PopFront rest c =
     (case collection c of
        [] \<Rightarrow> c\<lparr>fault := True\<rparr>
      | x # xs \<Rightarrow> emit t Removed (goto t rest (c\<lparr>collection := xs\<rparr>)))"
| "exec t k PopBack rest c =
     (if collection c = [] then c\<lparr>fault := True\<rparr>
      else emit t Removed (goto t rest (c\<lparr>collection := butlast (collection c)\<rparr>)))"
| "exec t k ClearAll rest c = emit t Cleared (goto t rest (c\<lparr>collection := []\<rparr>))"
| "exec t k (RetFront conv) rest c =
     (if collection c = [] then c\<lparr>fault := True\<rparr>
      else upd_thread t
             (\<lambda>th. th\<lparr>code := rest, ret := Elem (conv (collection c) (Slot 0))\<rparr>) c)"
| "exec t k (RetBack conv) rest c =
     (if collection c = [] then c\<lparr>fault := True\<rparr>
      else upd_thread t
             (\<lambda>th. th\<lparr>code := rest,
                       ret := Elem (conv (collection c) (Slot (length (collection c) - 1)))\<rparr>) c)"
| "exec t k RetEmpty rest c =
     upd_thread t (\<lambda>th. th\<lparr>code := rest, ret := Flag (collection c = [])\<rparr>) c"
| "exec t k RetSize rest c =
     upd_thread t (\<lambda>th. th\<lparr>code := rest, ret := Count (of_nat (length (collection c)))\<rparr>) c"
| "exec t k ScopeExit rest c =
     (if mutex c = Some t then release t (goto t rest c) else goto t rest c)"

subsection \<open>Scheduling\<close>

text \<open>
  \<open>Run t k\<close> lets thread \<open>t\<close> take its next step; \<open>Spurious t\<close> wakes the suspended thread \<open>t\<close>
  without a notification.  A step that is not possible (the mutex is taken, the thread is
  suspended or has returned) leaves the configuration as it is.
\<close>

datatype sched = Run tid nat | Spurious tid

fun step :: "sched \<Rightarrow> 'a config \<Rightarrow> 'a config" where
  "step (Run t k) c =
     (case mode (threads c t) of
        InWait \<Rightarrow> c
      | Woken \<Rightarrow>
          (if mutex c = None
           then emit t Resumed (upd_thread t (\<lambda>th. th\<lparr>mode := Running\<rparr>) (c\<lparr>mutex := Some t\<rparr>))
           else c)
      | Running \<Rightarrow>
          (case code (threads c t) of
             [] \<Rightarrow> c
           | s # rest \<Rightarrow> exec t k s rest c))"
| "step (Spurious t) c = (if t \<in> set (condNewData c) then wake t c else c)"

definition run :: "sched list \<Rightarrow> 'a config \<Rightarrow> 'a config" where
  "run es c = foldl (\<lambda>c e. step e c) c es"

text \<open>
  The start: the container holds \<open>xs\<close>, nobody owns the mutex, nobody is suspended, and thread
  \<open>t\<close> is about to execute the call \<open>calls t\<close>.  A thread of the program that makes several
  calls one after the other is a sequence of threads here, each scheduled only after the one
  before it has returned.
\<close>

definition init :: "'a list \<Rightarrow> (tid \<Rightarrow> 'a call) \<Rightarrow> 'a config" where
  "init xs calls =
     \<lparr>collection = xs, mutex = None, condNewData = [],
      threads = (\<lambda>t. \<lparr>code = body (calls t), mode = Running, ret = Void\<rparr>),
      trace = [], fault = False\<rparr>"

definition history :: "tid \<Rightarrow> 'a config \<Rightarrow> event list" where
  "history t c = map snd (filter (\<lambda>p. fst p = t) (trace c))"

definition returned :: "tid \<Rightarrow> 'a config \<Rightarrow> bool" where
  "returned t c \<longleftrightarrow> code (threads c t) = [] \<and> mode (threads c t) = Running"

subsection \<open>Concrete instances\<close>

text \<open>
  The built-in element type to which its own pointer type converts implicitly is
  \<^verbatim>\<open>bool\<close>: a pointer converts to \<^verbatim>\<open>true\<close> unless it is null.
\<close>

definition bool_from_ptr :: "bool from_ptr" where
  "bool_from_ptr mem p = (p \<noteq> Null)"

text \<open>Thread \<open>t\<close> executes the \<open>t\<close>-th call of a list; the other threads execute nothing.\<close>

definition calls_of :: "'a call list \<Rightarrow> tid \<Rightarrow> 'a call" where
  "calls_of cs t = (if t < length cs then cs ! t else NoCall)"

text \<open>Thread \<open>t\<close> alone is scheduled until its call has returned (no body is longer than five).\<close>

definition solo :: "tid \<Rightarrow> sched list" where
  "solo t = [Run t 0, Run t 0, Run t 0, Run t 0, Run t 0]"

text \<open>
  The scenario of the specification for \<^verbatim>\<open>TDequeConcurrent<bool>\<close>:
  \<^verbatim>\<open>push_back(1)\<close>, \<^verbatim>\<open>push_back(2)\<close>, \<^verbatim>\<open>push_front(0)\<close>, where the integers convert to
  \<^verbatim>\<open>true\<close>, \<^verbatim>\<open>true\<close>, \<^verbatim>\<open>false\<close>, and then three times \<^verbatim>\<open>front()\<close> followed by
  \<^verbatim>\<open>pop_front()\<close>, every call returning before the next one starts.
\<close>

definition drain_calls :: "bool call list" where
  "drain_calls =
     [Push_back (Some True), Push_back (Some True), Push_front (Some False),
      Front bool_from_ptr, Pop_front, Front bool_from_ptr, Pop_front,
      Front bool_from_ptr, Pop_front]"

definition drain_sched :: "sched list" where
  "drain_sched = solo 0 @ solo 1 @ solo 2 @ solo 3 @ solo 4 @ solo 5 @ solo 6 @ solo 7 @ solo 8"

subsection \<open>The locking discipline\<close>

text \<open>
  What a thread knows when it is about to execute a statement: it does not own the mutex
  (\<open>Free\<close>), it owns it (\<open>Held\<close>), or it owns it and has seen the container non-empty since
  (\<open>HeldNonEmpty\<close>).  \<open>post l s\<close> is the knowledge after statement \<open>s\<close>, or \<open>None\<close> when \<open>s\<close>
  must not be executed under \<open>l\<close>.  \<open>ok l cd\<close> says that the statements \<open>cd\<close> can be executed
  one after the other starting from \<open>l\<close> and end without the mutex.
\<close>

datatype lk = Free | Held | HeldNonEmpty

fun post :: "lk \<Rightarrow> 'a stmt \<Rightarrow> lk option" where
  "post Free Lock = Some Held"
| "post Free NotifyOne = Some Free"
| "post l ScopeExit = Some Free"
| "post Free _ = None"
| "post l Lock = None"
| "post l NotifyOne = None"
| "post l WhileEmptyWait = Some HeldNonEmpty"
| "post l CondWait = Some Held"
| "post l (Fct f) = Some Held"
| "post l Unlock = Some Free"
| "post l ClearAll = Some Held"
| "post l RetEmpty = Some l"
| "post HeldNonEmpty PopFront = Some Held"
| "post HeldNonEmpty PopBack = Some Held"
| "post HeldNonEmpty (RetFront conv) = Some HeldNonEmpty"
| "post HeldNonEmpty (RetBack conv) = Some HeldNonEmpty"
| "post HeldNonEmpty RetSize = Some HeldNonEmpty"
| "post Held _ = None"

fun ok :: "lk \<Rightarrow> 'a stmt list \<Rightarrow> bool" where
  "ok l [] = (l = Free)"
| "ok l (s # r) = (case post l s of None \<Rightarrow> False | Some l' \<Rightarrow> ok l' r)"

definition lkstate :: "'a config \<Rightarrow> tid \<Rightarrow> lk" where
  "lkstate c t =
     (if mutex c = Some t then (if collection c = [] then Held else HeldNonEmpty) else Free)"

text \<open>
  The invariant of a thread: a running thread's remaining statements fit what it owns; a
  suspended or woken thread does not own the mutex, is suspended exactly when the condition
  variable lists it, and continues with statements that expect the mutex.
\<close>

definition tinv :: "'a config \<Rightarrow> tid \<Rightarrow> bool" where
  "tinv c t =
     (case mode (threads c t) of
        Running \<Rightarrow> ok (lkstate c t) (code (threads c t)) \<and> t \<notin> set (condNewData c)
      | InWait \<Rightarrow> mutex c \<noteq> Some t \<and> ok Held (code (threads c t)) \<and> t \<in> set (condNewData c)
      | Woken \<Rightarrow> mutex c \<noteq> Some t \<and> ok Held (code (threads c t)) \<and> t \<notin> set (condNewData c))"

definition coherent :: "'a config \<Rightarrow> bool" where
  "coherent c \<longleftrightarrow> \<not> fault c \<and> distinct (condNewData c) \<and> (\<forall>t. tinv c t)"

subsection \<open>The phases of a call\<close>

text \<open>
  \<open>at c t cd m own\<close>: in \<open>c\<close>, thread \<open>t\<close> has the statements \<open>cd\<close> left, is in mode \<open>m\<close>,
  and owns the mutex iff \<open>own\<close>.
\<close>

definition at :: "'a config \<Rightarrow> tid \<Rightarrow> 'a stmt list \<Rightarrow> mode \<Rightarrow> bool \<Rightarrow> bool" where
  "at c t cd m own \<longleftrightarrow>
     code (threads c t) = cd \<and> mode (threads c t) = m \<and> (mutex c = Some t) = own"

text \<open>\<open>runs t e\<close>: the scheduler's choice \<open>e\<close> is a step of thread \<open>t\<close>.\<close>

fun runs :: "tid \<Rightarrow> sched \<Rightarrow> bool" where
  "runs t (Run u k) = (u = t)"
| "runs t (Spurious u) = False"



text \<open>
  The phases of \<^verbatim>\<open>addData_protected\<close>: before the lock, before the lambda, after a
  successful insertion, after the unlock, after the notification, returned; and, when the
  lambda has thrown, before and after the destructor of the lock.
\<close>

definition adding :: "('a list \<Rightarrow> 'a list option) \<Rightarrow> 'a config \<Rightarrow> tid \<Rightarrow> bool" where
  "adding f c t \<longleftrightarrow>
     at c t [Lock, Fct f, Unlock, NotifyOne, ScopeExit] Running False
       \<and> history t c = [] \<and> ret (threads c t) = Void
   \<or> at c t [Fct f, Unlock, NotifyOne, ScopeExit] Running True
       \<and> history t c = [Acquired] \<and> ret (threads c t) = Void
   \<or> at c t [Unlock, NotifyOne, ScopeExit] Running True
       \<and> history t c = [Acquired, Inserted] \<and> ret (threads c t) = Void
       \<and> (\<exists>xs. f xs \<noteq> None)
   \<or> at c t [NotifyOne, ScopeExit] Running False
       \<and> history t c = [Acquired, Inserted, Released] \<and> ret (threads c t) = Void
       \<and> (\<exists>xs. f xs \<noteq> None)
   \<or> at c t [ScopeExit] Running False
       \<and> (\<exists>w. history t c = [Acquired, Inserted, Released, Notified w])
       \<and> ret (threads c t) = Void \<and> (\<exists>xs. f xs \<noteq> None)
   \<or> at c t [] Running False
       \<and> (\<exists>w. history t c = [Acquired, Inserted, Released, Notified w])
       \<and> ret (threads c t) = Void \<and> (\<exists>xs. f xs \<noteq> None)
   \<or> at c t [ScopeExit] Running True
       \<and> history t c = [Acquired, Threw] \<and> ret (threads c t) = Raised
       \<and> (\<exists>xs. f xs = None)
   \<or> at c t [] Running False
       \<and> history t c = [Acquired, Threw, Released] \<and> ret (threads c t) = Raised
       \<and> (\<exists>xs. f xs = None)"

text \<open>
  The lambda an insertion hands to \<^verbatim>\<open>addData_protected\<close>, read off the call: \<open>at_front\<close> tells
  the two ends apart, \<open>lambda_of cl a\<close> is the lambda of the call \<open>cl\<close> with argument \<open>a\<close>.
\<close>

definition at_front :: "'a call \<Rightarrow> bool" where
  "at_front cl = (case cl of Push_front a \<Rightarrow> True | Emplace_front a \<Rightarrow> True | _ \<Rightarrow> False)"

definition lambda_of :: "'a call \<Rightarrow> 'a option \<Rightarrow> 'a list \<Rightarrow> 'a list option" where
  "lambda_of cl a =
     (\<lambda>xs. case a of None \<Rightarrow> None
             | Some x \<Rightarrow> Some (if at_front cl then x # xs else xs @ [x]))"




text \<open>The phases of \<^verbatim>\<open>empty\<close>.\<close>

definition querying :: "'a config \<Rightarrow> tid \<Rightarrow> bool" where
  "querying c t \<longleftrightarrow>
     at c t [Lock, CondWait, RetEmpty, ScopeExit] Running False \<and> history t c = []
   \<or> at c t [CondWait, RetEmpty, ScopeExit] Running True \<and> history t c = [Acquired]
   \<or> at c t [RetEmpty, ScopeExit] InWait False \<and> history t c = [Acquired, Suspended]
   \<or> at c t [RetEmpty, ScopeExit] Woken False \<and> history t c = [Acquired, Suspended]
   \<or> at c t [RetEmpty, ScopeExit] Running True
       \<and> history t c = [Acquired, Suspended, Resumed]
   \<or> at c t [ScopeExit] Running True
       \<and> history t c = [Acquired, Suspended, Resumed]
       \<and> (\<exists>b. ret (threads c t) = Flag b)
   \<or> at c t [] Running False
       \<and> history t c = [Acquired, Suspended, Resumed, Released]
       \<and> (\<exists>b. ret (threads c t) = Flag b)"

text \<open>The phases of \<^verbatim>\<open>clear\<close>.\<close>

definition clearing :: "'a config \<Rightarrow> tid \<Rightarrow> bool" where
  "clearing c t \<longleftrightarrow>
     at c t [Lock, ClearAll, ScopeExit] Running False \<and> history t c = []
   \<or> at c t [ClearAll, ScopeExit] Running True \<and> history t c = [Acquired]
   \<or> at c t [ScopeExit] Running True \<and> history t c = [Acquired, Cleared]
       \<and> collection c = []
   \<or> at c t [] Running False \<and> history t c = [Acquired, Cleared, Released]"

section \<open>Mutual exclusion\<close>

lemmas cfg_defs = emit_def goto_def upd_thread_def release_def cond_wait_def wake_def

lemmas body_defs = emplace_front_def emplace_back_def push_front_def push_back_def
  addData_protected_def clear_def front_def back_deque_def pop_front_def pop_back_def
  empty_deque_def size_deque_def

lemmas eval_defs = run_def init_def solo_def calls_of_def body_defs cfg_defs returned_def
  history_def

lemma ok_body: "ok Free (body call)"
  by (cases call) (simp_all add: emplace_front_def emplace_back_def push_front_def push_back_def addData_protected_def clear_def front_def back_deque_def pop_front_def pop_back_def empty_deque_def size_deque_def)

lemma post_mono:
  "post Held s = Some l \<Longrightarrow> post HeldNonEmpty s = Some l \<or> (l = Held \<and> post HeldNonEmpty s = Some HeldNonEmpty)"
  by (cases s) simp_all

lemma ok_mono: "ok Held cd \<Longrightarrow> ok HeldNonEmpty cd"
proof (induction cd)
  case Nil
  then show ?case by simp
next
  case (Cons s cd)
  then obtain l where l: "post Held s = Some l" "ok l cd"
    by (auto split: option.splits)
  from post_mono[OF l(1)] show ?case
  proof
    assume "post HeldNonEmpty s = Some l"
    with l show ?thesis by simp
  next
    assume "l = Held \<and> post HeldNonEmpty s = Some HeldNonEmpty"
    with l Cons.IH show ?thesis by simp
  qed
qed


lemma coherent_init: "coherent (init xs calls)"
  by (simp add: coherent_def tinv_def init_def lkstate_def ok_body)

lemma coherent_spurious: "coherent c \<Longrightarrow> coherent (step (Spurious u) c)"
  unfolding coherent_def tinv_def
  apply (auto simp: wake_def upd_thread_def lkstate_def split: mode.splits)
  done

lemma coherent_resume:
  assumes "coherent c" "mode (threads c t) = Woken"
  shows "coherent (step (Run t k) c)"
  using assms unfolding coherent_def tinv_def
  by (auto simp: cfg_defs lkstate_def ok_mono split: mode.splits)

lemma tinv_frame:
  assumes "tinv c u" "threads c' u = threads c u"
    "(u \<in> set (condNewData c')) = (u \<in> set (condNewData c))"
    "(mutex c' = Some u) = (mutex c = Some u)"
    "mutex c = Some u \<Longrightarrow> (collection c' = []) = (collection c = [])"
  shows "tinv c' u"
  using assms unfolding tinv_def lkstate_def by (cases "mode (threads c u)") auto

lemma running_head:
  assumes "tinv c t" "mode (threads c t) = Running" "code (threads c t) = s # rest"
  shows "case post (lkstate c t) s of None \<Rightarrow> False | Some l \<Rightarrow> ok l rest"
    and "t \<notin> set (condNewData c)"
  using assms unfolding tinv_def by simp_all


lemma head_free:
  assumes "post (lkstate c t) s = Some l" "mutex c \<noteq> Some t"
  shows "s = Lock \<or> s = NotifyOne \<or> s = ScopeExit"
  using assms by (cases s) (simp_all add: lkstate_def)

lemma head_held:
  assumes "post (lkstate c t) s = Some l" "s \<noteq> ScopeExit" "s \<noteq> Lock" "s \<noteq> NotifyOne"
  shows "mutex c = Some t"
  using assms by (cases s) (simp_all add: lkstate_def split: if_splits)

lemma head_not_held:
  assumes "post (lkstate c t) s = Some l" "s = Lock \<or> s = NotifyOne"
  shows "mutex c \<noteq> Some t" "l = (if s = Lock then Held else Free)"
  using assms by (auto simp: lkstate_def split: if_splits)

lemma head_nonempty:
  assumes "post (lkstate c t) s = Some l"
    "s = PopFront \<or> s = PopBack \<or> s = RetFront conv \<or> s = RetBack conv \<or> s = RetSize"
  shows "collection c \<noteq> []"
  using assms by (auto simp: lkstate_def split: if_splits)

lemma coherent_update:
  assumes "coherent c"
    and "\<not> fault c'" and "distinct (condNewData c')"
    and "tinv c' t"
    and "\<And>u. u \<noteq> t \<Longrightarrow> threads c' u = threads c u"
    and "\<And>u. u \<noteq> t \<Longrightarrow> (u \<in> set (condNewData c')) = (u \<in> set (condNewData c))"
    and "\<And>u. u \<noteq> t \<Longrightarrow> (mutex c' = Some u) = (mutex c = Some u)"
    and "\<And>u. u \<noteq> t \<Longrightarrow> mutex c = Some u \<Longrightarrow> (collection c' = []) = (collection c = [])"
  shows "coherent c'"
  unfolding coherent_def
proof (intro conjI allI)
  fix u
  show "tinv c' u"
  proof (cases "u = t")
    case True
    with assms(4) show ?thesis by simp
  next
    case False
    from assms(1) have "tinv c u" by (simp add: coherent_def)
    then show ?thesis
      by (rule tinv_frame) (use False assms(5-8) in auto)
  qed
qed (use assms in auto)

lemma coherent_wake:
  assumes "coherent c" "u \<in> set (condNewData c)"
  shows "coherent (wake u c)"
  using coherent_spurious[OF assms(1), of u] assms(2) by simp

lemma wake_other:
  assumes "coherent c" "u \<in> set (condNewData c)" "mode (threads c t) = Running"
  shows "threads (wake u c) t = threads c t" "mutex (wake u c) = mutex c"
    "collection (wake u c) = collection c" "\<not> fault (wake u c)" "trace (wake u c) = trace c"
proof -
  from assms(1) have "tinv c t" by (simp add: coherent_def)
  with assms(3) have "t \<notin> set (condNewData c)" by (simp add: tinv_def)
  with assms(2) have "u \<noteq> t" by auto
  then show "threads (wake u c) t = threads c t" by (simp add: cfg_defs)
  show "mutex (wake u c) = mutex c" "collection (wake u c) = collection c"
    "trace (wake u c) = trace c"
    by (simp_all add: cfg_defs)
  from assms(1) show "\<not> fault (wake u c)" by (simp add: cfg_defs coherent_def)
qed

lemma coherent_exec:
  assumes coh: "coherent c" and run: "mode (threads c t) = Running"
    and cd: "code (threads c t) = s # rest"
  shows "coherent (exec t k s rest c)"
proof -
  from coh have nf: "\<not> fault c" and dist: "distinct (condNewData c)" and ti: "tinv c t"
    by (simp_all add: coherent_def)
  from running_head[OF ti run cd] obtain l
    where l: "post (lkstate c t) s = Some l" and okl: "ok l rest"
      and nw: "t \<notin> set (condNewData c)"
    by (auto split: option.splits)
  show ?thesis
  proof (cases s)
    case Lock
    from head_not_held[OF l] Lock have m: "mutex c \<noteq> Some t" and lh: "l = Held" by simp_all
    show ?thesis
    proof (cases "mutex c = None")
      case True
      show ?thesis
        by (rule coherent_update[OF coh, of _ t])
          (use Lock True nf dist nw okl lh run in
            \<open>auto simp: cfg_defs tinv_def lkstate_def ok_mono\<close>)
    next
      case False
      with Lock coh show ?thesis by auto
    qed
  next
    case WhileEmptyWait
    from head_held[OF l] WhileEmptyWait have m: "mutex c = Some t" by simp
    from l WhileEmptyWait m have lh: "l = HeldNonEmpty" by (simp add: lkstate_def split: if_splits)
    show ?thesis
      by (rule coherent_update[OF coh, of _ t])
        (use WhileEmptyWait m nf dist nw okl lh run cd in
          \<open>auto simp: cfg_defs tinv_def lkstate_def ok_mono\<close>)
  next
    case CondWait
    from head_held[OF l] CondWait have m: "mutex c = Some t" by simp
    from l CondWait m have lh: "l = Held" by (simp add: lkstate_def split: if_splits)
    show ?thesis
      by (rule coherent_update[OF coh, of _ t])
        (use CondWait m nf dist nw okl lh run cd in
          \<open>auto simp: cfg_defs tinv_def lkstate_def ok_mono\<close>)
  next
    case (Fct f)
    from head_held[OF l] Fct have m: "mutex c = Some t" by simp
    from l Fct m have lh: "l = Held" by (simp add: lkstate_def split: if_splits)
    show ?thesis
      by (rule coherent_update[OF coh, of _ t])
        (use Fct m nf dist nw okl lh run cd in
          \<open>auto simp: cfg_defs tinv_def lkstate_def ok_mono split: option.splits\<close>)
  next
    case Unlock
    from head_held[OF l] Unlock have m: "mutex c = Some t" by simp
    from l Unlock m have lh: "l = Free" by (simp add: lkstate_def split: if_splits)
    show ?thesis
      by (rule coherent_update[OF coh, of _ t])
        (use Unlock m nf dist nw okl lh run cd in
          \<open>auto simp: cfg_defs tinv_def lkstate_def ok_mono\<close>)
  next
    case NotifyOne
    from head_not_held[OF l] NotifyOne have m: "mutex c \<noteq> Some t" and lh: "l = Free"
      by simp_all
    show ?thesis
    proof (cases "condNewData c")
      case Nil
      show ?thesis
        by (rule coherent_update[OF coh, of _ t])
          (use NotifyOne Nil m nf dist nw okl lh run cd in
            \<open>auto simp: cfg_defs tinv_def lkstate_def ok_mono\<close>)
    next
      case (Cons w ws)
      define u where "u = (w # ws) ! (k mod length (w # ws))"
      have uin: "u \<in> set (condNewData c)"
        unfolding u_def Cons by (rule nth_mem) simp
      have ex: "exec t k s rest c = emit t (Notified (Some u)) (goto t rest (wake u c))"
        using NotifyOne Cons by (simp add: u_def Let_def)
      note wo = wake_other[OF coh uin run]
      have cw: "coherent (wake u c)" by (rule coherent_wake[OF coh uin])
      from cw have tw: "tinv (wake u c) t" and dw: "distinct (condNewData (wake u c))"
        by (simp_all add: coherent_def)
      from tw wo(1) run have nw': "t \<notin> set (condNewData (wake u c))"
        by (simp add: tinv_def)
      show ?thesis unfolding ex
        by (rule coherent_update[OF cw, of _ t])
          (use m wo dw nw' okl lh run in
            \<open>auto simp: emit_def goto_def upd_thread_def tinv_def lkstate_def\<close>)
    qed
  next
    case PopFront
    from head_held[OF l] PopFront have m: "mutex c = Some t" by simp
    from head_nonempty[OF l] PopFront have ne: "collection c \<noteq> []" by simp
    from l PopFront m ne have lh: "l = Held" by (simp add: lkstate_def split: if_splits)
    show ?thesis
      by (rule coherent_update[OF coh, of _ t])
        (use PopFront m ne nf dist nw okl lh run cd in
          \<open>auto simp: cfg_defs tinv_def lkstate_def ok_mono split: list.splits\<close>)
  next
    case PopBack
    from head_held[OF l] PopBack have m: "mutex c = Some t" by simp
    from head_nonempty[OF l] PopBack have ne: "collection c \<noteq> []" by simp
    from l PopBack m ne have lh: "l = Held" by (simp add: lkstate_def split: if_splits)
    show ?thesis
      by (rule coherent_update[OF coh, of _ t])
        (use PopBack m ne nf dist nw okl lh run cd in
          \<open>auto simp: cfg_defs tinv_def lkstate_def ok_mono\<close>)
  next
    case ClearAll
    from head_held[OF l] ClearAll have m: "mutex c = Some t" by simp
    from l ClearAll m have lh: "l = Held" by (simp add: lkstate_def split: if_splits)
    show ?thesis
      by (rule coherent_update[OF coh, of _ t])
        (use ClearAll m nf dist nw okl lh run cd in
          \<open>auto simp: cfg_defs tinv_def lkstate_def ok_mono\<close>)
  next
    case (RetFront conv)
    from head_held[OF l] RetFront have m: "mutex c = Some t" by simp
    from head_nonempty[OF l, of conv] RetFront have ne: "collection c \<noteq> []" by simp
    from l RetFront m ne have lh: "l = HeldNonEmpty" by (simp add: lkstate_def split: if_splits)
    show ?thesis
      by (rule coherent_update[OF coh, of _ t])
        (use RetFront m ne nf dist nw okl lh run cd in
          \<open>auto simp: cfg_defs tinv_def lkstate_def ok_mono\<close>)
  next
    case (RetBack conv)
    from head_held[OF l] RetBack have m: "mutex c = Some t" by simp
    from head_nonempty[OF l, of conv] RetBack have ne: "collection c \<noteq> []" by simp
    from l RetBack m ne have lh: "l = HeldNonEmpty" by (simp add: lkstate_def split: if_splits)
    show ?thesis
      by (rule coherent_update[OF coh, of _ t])
        (use RetBack m ne nf dist nw okl lh run cd in
          \<open>auto simp: cfg_defs tinv_def lkstate_def ok_mono\<close>)
  next
    case RetEmpty
    from head_held[OF l] RetEmpty have m: "mutex c = Some t" by simp
    from l RetEmpty m have lh: "l = lkstate c t" by (simp add: lkstate_def split: if_splits)
    show ?thesis
      by (rule coherent_update[OF coh, of _ t])
        (use RetEmpty m nf dist nw okl lh run cd in
          \<open>auto simp: cfg_defs tinv_def lkstate_def ok_mono\<close>)
  next
    case RetSize
    from head_held[OF l] RetSize have m: "mutex c = Some t" by simp
    from head_nonempty[OF l] RetSize have ne: "collection c \<noteq> []" by simp
    from l RetSize m ne have lh: "l = HeldNonEmpty" by (simp add: lkstate_def split: if_splits)
    show ?thesis
      by (rule coherent_update[OF coh, of _ t])
        (use RetSize m ne nf dist nw okl lh run cd in
          \<open>auto simp: cfg_defs tinv_def lkstate_def ok_mono\<close>)
  next
    case ScopeExit
    from l ScopeExit have lh: "l = Free" by simp
    show ?thesis
      by (rule coherent_update[OF coh, of _ t])
        (use ScopeExit nf dist nw okl lh run cd in
          \<open>auto simp: cfg_defs tinv_def lkstate_def ok_mono\<close>)
  qed
qed

lemma coherent_step: "coherent c \<Longrightarrow> coherent (step e c)"
proof (cases e)
  case (Run t k)
  assume coh: "coherent c"
  show ?thesis
  proof (cases "mode (threads c t)")
    case Running
    show ?thesis
    proof (cases "code (threads c t)")
      case Nil
      with Run Running coh show ?thesis by simp
    next
      case (Cons s rest)
      with Run Running coherent_exec[OF coh Running Cons] show ?thesis by simp
    qed
  next
    case InWait
    with Run coh show ?thesis by simp
  next
    case Woken
    with Run coherent_resume[OF coh Woken] show ?thesis by simp
  qed
next
  case (Spurious u)
  assume "coherent c"
  from coherent_spurious[OF this, of u] Spurious show ?thesis by simp
qed

lemma coherent_run: "coherent c \<Longrightarrow> coherent (run es c)"
  unfolding run_def by (induction es arbitrary: c) (simp_all add: coherent_step)

lemma coherent_reach: "coherent (run es (init xs calls))"
  by (rule coherent_run[OF coherent_init])

lemma free_head:
  assumes "coherent c" "mode (threads c u) = Running" "code (threads c u) = s # rest"
    "mutex c \<noteq> Some u"
  shows "s = Lock \<or> s = NotifyOne \<or> s = ScopeExit"
proof -
  from assms(1) have "tinv c u" by (simp add: coherent_def)
  from running_head(1)[OF this assms(2,3)] obtain l where "post (lkstate c u) s = Some l"
    by (auto split: option.splits)
  from head_free[OF this assms(4)] show ?thesis .
qed

lemma waiting_mode:
  assumes "coherent c"
  shows "(t \<in> set (condNewData c)) = (mode (threads c t) = InWait)"
proof -
  from assms have "tinv c t" by (simp add: coherent_def)
  then show ?thesis by (cases "mode (threads c t)") (simp_all add: tinv_def)
qed

lemma others_exec:
  assumes coh: "coherent c" and ut: "u \<noteq> t" and run: "mode (threads c u) = Running"
    and cd: "code (threads c u) = s # rest"
  shows "code (threads (exec u k s rest c) t) = code (threads c t)"
    and "ret (threads (exec u k s rest c) t) = ret (threads c t)"
    and "history t (exec u k s rest c) = history t c"
    and "mode (threads (exec u k s rest c) t) = mode (threads c t) \<or>
         mode (threads c t) = InWait \<and> mode (threads (exec u k s rest c) t) = Woken"
    and "(mutex (exec u k s rest c) = Some t) = (mutex c = Some t)"
    and "mutex c = Some t \<Longrightarrow> collection (exec u k s rest c) = collection c"
proof -
  have wm: "\<And>w. w \<in> set (condNewData c) \<Longrightarrow> mode (threads c w) = InWait"
    using waiting_mode[OF coh] by simp
  have nth: "\<And>w ws. condNewData c = w # ws \<Longrightarrow>
      mode (threads c ((w # ws) ! (k mod Suc (length ws)))) = InWait"
  proof -
    fix w ws assume a: "condNewData c = w # ws"
    have "(w # ws) ! (k mod length (w # ws)) \<in> set (w # ws)" by (rule nth_mem) simp
    with a wm show "mode (threads c ((w # ws) ! (k mod Suc (length ws)))) = InWait" by simp
  qed
  have own: "mutex c = Some t \<Longrightarrow> s = Lock \<or> s = NotifyOne \<or> s = ScopeExit"
    using free_head[OF coh run cd] ut by auto
  show "code (threads (exec u k s rest c) t) = code (threads c t)"
    using ut by (cases s) (auto simp: cfg_defs Let_def split: option.splits list.splits)
  show "ret (threads (exec u k s rest c) t) = ret (threads c t)"
    using ut by (cases s) (auto simp: cfg_defs Let_def split: option.splits list.splits)
  show "history t (exec u k s rest c) = history t c"
    using ut by (cases s) (auto simp: cfg_defs history_def Let_def split: option.splits list.splits)
  show "mode (threads (exec u k s rest c) t) = mode (threads c t) \<or>
         mode (threads c t) = InWait \<and> mode (threads (exec u k s rest c) t) = Woken"
    using ut nth by (cases s) (auto simp: cfg_defs Let_def split: option.splits list.splits)
  show "(mutex (exec u k s rest c) = Some t) = (mutex c = Some t)"
    using ut own by (cases s) (auto simp: cfg_defs Let_def split: option.splits list.splits)
  show "mutex c = Some t \<Longrightarrow> collection (exec u k s rest c) = collection c"
    using ut own by (cases s) (auto simp: cfg_defs Let_def split: option.splits list.splits)
qed

lemma others_step:
  assumes coh: "coherent c" and nt: "\<not> runs t e"
  shows "code (threads (step e c) t) = code (threads c t)"
    and "ret (threads (step e c) t) = ret (threads c t)"
    and "history t (step e c) = history t c"
    and "mode (threads (step e c) t) = mode (threads c t) \<or>
         mode (threads c t) = InWait \<and> mode (threads (step e c) t) = Woken"
    and "(mutex (step e c) = Some t) = (mutex c = Some t)"
    and "mutex c = Some t \<Longrightarrow> collection (step e c) = collection c"
proof -
  have all: "code (threads (step e c) t) = code (threads c t) \<and>
    ret (threads (step e c) t) = ret (threads c t) \<and>
    history t (step e c) = history t c \<and>
    (mode (threads (step e c) t) = mode (threads c t) \<or>
         mode (threads c t) = InWait \<and> mode (threads (step e c) t) = Woken) \<and>
    (mutex (step e c) = Some t) = (mutex c = Some t) \<and>
    (mutex c = Some t \<longrightarrow> collection (step e c) = collection c)"
  proof (cases e)
    case (Spurious u)
    show ?thesis
      using waiting_mode[OF coh, of t] Spurious
      by (auto simp: cfg_defs history_def)
  next
    case (Run u k)
    with nt have ut: "u \<noteq> t" by simp
    show ?thesis
    proof (cases "mode (threads c u)")
      case InWait
      with Run show ?thesis by simp
    next
      case Woken
      with Run ut show ?thesis by (auto simp: cfg_defs history_def)
    next
      case Running
      show ?thesis
      proof (cases "code (threads c u)")
        case Nil
        with Run Running show ?thesis by simp
      next
        case (Cons s rest)
        from others_exec[OF coh ut Running Cons, of k] Run Running Cons
        show ?thesis by simp
      qed
    qed
  qed
  from all show "code (threads (step e c) t) = code (threads c t)" by simp
  from all show "ret (threads (step e c) t) = ret (threads c t)" by simp
  from all show "history t (step e c) = history t c" by simp
  from all show "mode (threads (step e c) t) = mode (threads c t) \<or>
         mode (threads c t) = InWait \<and> mode (threads (step e c) t) = Woken" by simp
  from all show "(mutex (step e c) = Some t) = (mutex c = Some t)" by simp
  from all show "mutex c = Some t \<Longrightarrow> collection (step e c) = collection c" by simp
qed

lemma at_others:
  assumes "coherent c" "\<not> runs t e" "at c t cd m own"
  shows "at (step e c) t cd m own \<or> m = InWait \<and> at (step e c) t cd Woken own"
  using others_step[OF assms(1,2)] assms(3) unfolding at_def by auto

lemma at_kept:
  assumes "coherent c" "\<not> runs t e" "at c t cd m own" "m \<noteq> InWait"
  shows "at (step e c) t cd m own"
  using at_others[OF assms(1-3)] assms(4) by simp

lemma at_moved:
  assumes "coherent c" "\<not> runs t e" "at c t cd InWait own"
  shows "at (step e c) t cd InWait own \<or> at (step e c) t cd Woken own"
  using at_others[OF assms] by auto

lemma runs_Run: "runs t e \<Longrightarrow> \<exists>k. e = Run t k"
  by (cases e) auto

lemma pick_other:
  assumes "coherent c" "mode (threads c t) = Running" "condNewData c = w # ws"
  shows "(w # ws) ! (k mod Suc (length ws)) \<noteq> t"
proof
  assume eq: "(w # ws) ! (k mod Suc (length ws)) = t"
  have "(w # ws) ! (k mod length (w # ws)) \<in> set (w # ws)" by (rule nth_mem) simp
  with eq assms(3) have "t \<in> set (condNewData c)" by simp
  with waiting_mode[OF assms(1), of t] assms(2) show False by simp
qed

lemma pick_waiting:
  assumes "coherent c" "mode (threads c ((w # ws) ! (k mod Suc (length ws)))) = Running"
    "condNewData c = w # ws"
  shows False
  using pick_other[OF assms(1,2,3), of k] by simp

lemma run_snoc: "run (es @ [e]) c = step e (run es c)"
  by (simp add: run_def)

lemma phase_run:
  assumes "P (init xs calls)" and "\<And>c e. coherent c \<Longrightarrow> P c \<Longrightarrow> P (step e c)"
  shows "P (run es (init xs calls))"
proof (induction es rule: rev_induct)
  case Nil
  from assms(1) show ?case by (simp add: run_def)
next
  case (snoc e es)
  from assms(2)[OF coherent_reach snoc] show ?case by (simp add: run_snoc)
qed

section \<open>The phases are invariant\<close>







lemma adding_step:
  assumes coh: "coherent c" and ph: "adding f c t"
  shows "adding f (step e c) t"
proof (cases "runs t e")
  case False
  note r = others_step(2,3)[OF coh False] and k = at_kept[OF coh False]
  from ph show ?thesis unfolding adding_def
    by (elim disjE conjE exE) (use r in \<open>auto dest: k\<close>)
next
  case True
  then obtain k where e: "e = Run t k" by (auto dest: runs_Run)
  note po = pick_waiting[OF coh]
  from ph show ?thesis unfolding adding_def e
    by (elim disjE conjE exE)
      (auto simp: at_def cfg_defs history_def Let_def dest: po
          split: option.splits list.splits)
qed

lemma querying_step:
  assumes coh: "coherent c" and ph: "querying c t"
  shows "querying (step e c) t"
proof (cases "runs t e")
  case False
  note r = others_step(2,3)[OF coh False] and k = at_kept[OF coh False]
    and m = at_moved[OF coh False]
  from ph show ?thesis unfolding querying_def
    by (elim disjE conjE exE) (use r in \<open>auto dest: k m\<close>)
next
  case True
  then obtain k where e: "e = Run t k" by (auto dest: runs_Run)
  from ph show ?thesis unfolding querying_def e
    by (elim disjE conjE exE) (auto simp: at_def cfg_defs history_def)
qed

lemma clearing_step:
  assumes coh: "coherent c" and ph: "clearing c t"
  shows "clearing (step e c) t"
proof (cases "runs t e")
  case False
  note r = others_step(2,3)[OF coh False] and k = at_kept[OF coh False]
   and col = others_step(6)[OF coh False]
  from ph show ?thesis unfolding clearing_def
    apply (elim disjE conjE exE)
    subgoal by (use r in \<open>auto dest: k\<close>)
    subgoal by (use r in \<open>auto dest: k\<close>)
    subgoal using r col k[of "[ScopeExit]" Running True]
      by (auto simp: at_def)
    subgoal by (use r in \<open>auto dest: k\<close>)
    done
next
  case True
  then obtain k where e: "e = Run t k" by (auto dest: runs_Run)
  from ph show ?thesis unfolding clearing_def e
    by (elim disjE conjE exE) (auto simp: at_def cfg_defs history_def)
qed













section \<open>What the phases give\<close>

lemma adding_reach:
  assumes "body (calls t) = addData_protected f"
  shows "adding f (run es (init xs calls)) t"
proof (rule phase_run)
  from assms show "adding f (init xs calls) t"
    by (simp add: adding_def at_def init_def history_def addData_protected_def)
next
  fix c :: "'a config" and e
  assume "coherent c" "adding f c t"
  then show "adding f (step e c) t" by (rule adding_step)
qed

lemma querying_reach:
  assumes "calls t = Empty"
  shows "querying (run es (init xs calls)) t"
proof (rule phase_run)
  from assms show "querying (init xs calls) t"
    by (simp add: querying_def at_def init_def history_def empty_deque_def)
next
  fix c :: "'a config" and e
  assume "coherent c" "querying c t"
  then show "querying (step e c) t" by (rule querying_step)
qed

lemma clearing_reach:
  assumes "calls t = Clear"
  shows "clearing (run es (init xs calls)) t"
proof (rule phase_run)
  from assms show "clearing (init xs calls) t"
    by (simp add: clearing_def at_def init_def history_def clear_def)
next
  fix c :: "'a config" and e
  assume "coherent c" "clearing c t"
  then show "clearing (step e c) t" by (rule clearing_step)
qed


lemma body_throwing:
  assumes "cl = Push_front None \<or> cl = Push_back None
      \<or> cl = Emplace_front None \<or> cl = Emplace_back None"
  shows "body cl = addData_protected (\<lambda>xs. None)"
  using assms by (auto simp: push_front_def push_back_def emplace_front_def emplace_back_def)

lemma throwing_phases:
  assumes "adding (\<lambda>xs. None) c t"
  shows "at c t [Lock, Fct (\<lambda>xs. None), Unlock, NotifyOne, ScopeExit] Running False
       \<and> history t c = [] \<and> ret (threads c t) = Void
   \<or> at c t [Fct (\<lambda>xs. None), Unlock, NotifyOne, ScopeExit] Running True
       \<and> history t c = [Acquired] \<and> ret (threads c t) = Void
   \<or> at c t [ScopeExit] Running True
       \<and> history t c = [Acquired, Threw] \<and> ret (threads c t) = Raised
   \<or> at c t [] Running False
       \<and> history t c = [Acquired, Threw, Released] \<and> ret (threads c t) = Raised"
  using assms unfolding adding_def by auto

lemma throwing_history:
  assumes "adding (\<lambda>xs. None) c t"
  shows "prefix (history t c) [Acquired, Threw, Released]"
  using throwing_phases[OF assms] by auto

lemma throwing_collection:
  assumes "adding (\<lambda>xs. None) c t"
  shows "collection (step (Run t k) c) = collection c"
  using throwing_phases[OF assms] by (auto simp: at_def cfg_defs)

lemma throwing_returned:
  assumes "adding (\<lambda>xs. None) c t" "returned t c"
  shows "ret (threads c t) = Raised \<and> history t c = [Acquired, Threw, Released]
    \<and> mutex c \<noteq> Some t"
  using throwing_phases[OF assms(1)] assms(2) by (auto simp: at_def returned_def)

lemma adding_progress:
  assumes "adding f c t" "mutex c = None \<or> mutex c = Some t" "\<not> returned t c"
  shows "length (code (threads (step (Run t k) c) t)) < length (code (threads c t))"
  using assms unfolding adding_def
  by (elim disjE conjE exE)
     (auto simp: at_def returned_def cfg_defs Let_def split: option.splits list.splits)

lemma solo_throwing:
  assumes "body (calls t) = addData_protected (\<lambda>xs. None)"
  shows "returned t (run (solo t) (init xs calls))
     \<and> collection (run (solo t) (init xs calls)) = xs
     \<and> mutex (run (solo t) (init xs calls)) = None"
  using assms
  by (simp add: run_def init_def solo_def returned_def addData_protected_def cfg_defs)

lemma body_inserting:
  assumes "cl = Push_front a \<or> cl = Push_back a \<or> cl = Emplace_front a
    \<or> cl = Emplace_back a"
  shows "body cl = addData_protected (lambda_of cl a)"
  using assms
  by (cases a)
    (auto simp: push_front_def push_back_def emplace_front_def emplace_back_def
      lambda_of_def at_front_def)

lemma adding_running:
  assumes "adding f c t"
  shows "mode (threads c t) = Running"
  using assms unfolding adding_def at_def by auto

lemma adding_never_suspended:
  assumes "adding f c t"
  shows "Suspended \<notin> set (history t c)"
  using assms unfolding adding_def at_def by auto

lemma adding_outcome:
  assumes "adding (lambda_of cl a) c t" "returned t c"
  shows "(ret (threads c t) = Raised) = (a = None)" "(ret (threads c t) = Void) = (a \<noteq> None)"
  using assms unfolding adding_def at_def returned_def
  by (auto simp: lambda_of_def split: option.splits)

lemma solo_adding:
  assumes "body (calls t) = addData_protected f"
  shows "returned t (run (solo t) (init xs calls))"
  using assms
  by (cases "f xs")
    (simp_all add: run_def init_def solo_def returned_def addData_protected_def cfg_defs)








lemma clearing_facts:
  assumes "clearing c t"
  shows "mode (threads c t) = Running"
    and "prefix (history t c) [Acquired, Cleared, Released]"
    and "returned t c \<Longrightarrow> history t c = [Acquired, Cleared, Released]"
    and "history t c = [Acquired] \<Longrightarrow>
          mutex c = Some t \<and> collection (step (Run t k) c) = []
          \<and> history t (step (Run t k) c) = [Acquired, Cleared]"
    and "history t c = [Acquired, Cleared] \<Longrightarrow>
          collection c = [] \<and> collection (step (Run t k) c) = []
          \<and> mutex (step (Run t k) c) = None \<and> returned t (step (Run t k) c)"
    and "(mutex c = None \<or> mutex c = Some t) \<and> \<not> returned t c \<Longrightarrow>
          length (code (threads (step (Run t k) c) t)) < length (code (threads c t))"
proof -
  from assms show "mode (threads c t) = Running" unfolding clearing_def at_def by auto
  from assms show "prefix (history t c) [Acquired, Cleared, Released]"
    unfolding clearing_def by auto
  from assms show "returned t c \<Longrightarrow> history t c = [Acquired, Cleared, Released]"
    unfolding clearing_def at_def returned_def by auto
  from assms show "history t c = [Acquired] \<Longrightarrow>
          mutex c = Some t \<and> collection (step (Run t k) c) = []
          \<and> history t (step (Run t k) c) = [Acquired, Cleared]"
    unfolding clearing_def by (auto simp: at_def cfg_defs history_def)
  from assms show "history t c = [Acquired, Cleared] \<Longrightarrow>
          collection c = [] \<and> collection (step (Run t k) c) = []
          \<and> mutex (step (Run t k) c) = None \<and> returned t (step (Run t k) c)"
    unfolding clearing_def by (auto simp: at_def cfg_defs history_def returned_def)
  from assms show "(mutex c = None \<or> mutex c = Some t) \<and> \<not> returned t c \<Longrightarrow>
          length (code (threads (step (Run t k) c) t)) < length (code (threads c t))"
    unfolding clearing_def by (auto simp: at_def cfg_defs returned_def)
qed

lemma solo_clear:
  assumes "calls t = Clear"
  shows "returned t (run (solo t) (init xs calls))
    \<and> collection (run (solo t) (init xs calls)) = []"
  using assms by (simp add: run_def init_def solo_def returned_def clear_def cfg_defs)

lemma suspended_idle:
  assumes "mode (threads c t) = InWait"
  shows "step (Run t k) c = c"
  using assms by simp

lemma wake_cause:
  assumes coh: "coherent c" and w: "mode (threads c t) = InWait"
    and ch: "mode (threads (step e c) t) \<noteq> InWait"
  shows "mode (threads (step e c) t) = Woken \<and>
    (e = Spurious t \<or>
     (\<exists>u j rest. e = Run u j \<and> u \<noteq> t \<and> mode (threads c u) = Running
        \<and> code (threads c u) = NotifyOne # rest))"
proof (cases e)
  case (Spurious u)
  with w ch show ?thesis by (cases "u = t") (auto simp: cfg_defs split: if_splits)
next
  case (Run u j)
  from w ch Run have ut: "u \<noteq> t" by (auto simp: suspended_idle)
  then have nr: "\<not> runs t e" using Run by simp
  from others_step(4)[OF coh nr] w ch have wk: "mode (threads (step e c) t) = Woken" by auto
  show ?thesis
  proof (cases "mode (threads c u)")
    case InWait
    with Run ch w show ?thesis by simp
  next
    case Woken
    with Run ch w ut show ?thesis by (auto simp: cfg_defs split: if_splits)
  next
    case Running
    show ?thesis
    proof (cases "code (threads c u)")
      case Nil
      with Run Running ch w show ?thesis by simp
    next
      case (Cons s rest)
      have "s = NotifyOne"
      proof (rule ccontr)
        assume "s \<noteq> NotifyOne"
        then have "mode (threads (exec u j s rest c) t) = mode (threads c t)"
          using ut by (cases s) (auto simp: cfg_defs split: option.splits list.splits)
        with Run Running Cons ch w show False by simp
      qed
      with Run Running Cons ut wk show ?thesis by simp
    qed
  qed
qed

lemma querying_facts:
  assumes "querying c t"
  shows "prefix (history t c) [Acquired, Suspended, Resumed, Released]"
    and "returned t c \<Longrightarrow> history t c = [Acquired, Suspended, Resumed, Released]
           \<and> (\<exists>b. ret (threads c t) = Flag b)"
    and "history t c = [Acquired] \<Longrightarrow>
           mode (threads c t) = Running \<and> mutex c = Some t
           \<and> mode (threads (step (Run t k) c) t) = InWait
           \<and> t \<in> set (condNewData (step (Run t k) c))
           \<and> mutex (step (Run t k) c) = None
           \<and> collection (step (Run t k) c) = collection c
           \<and> history t (step (Run t k) c) = [Acquired, Suspended]"
    and "history t c = [Acquired, Suspended] \<Longrightarrow>
           mode (threads c t) = InWait \<or> mode (threads c t) = Woken"
    and "ret (threads (step (Run t k) c) t) \<noteq> ret (threads c t) \<Longrightarrow>
           history t c = [Acquired, Suspended, Resumed] \<and> mutex c = Some t
           \<and> ret (threads (step (Run t k) c) t) = Flag (collection c = [])"
    and "history t c = [Acquired, Suspended, Resumed] \<Longrightarrow> mutex c = Some t"
proof -
  from assms show "prefix (history t c) [Acquired, Suspended, Resumed, Released]"
    unfolding querying_def by auto
  from assms show "returned t c \<Longrightarrow> history t c = [Acquired, Suspended, Resumed, Released]
           \<and> (\<exists>b. ret (threads c t) = Flag b)"
    unfolding querying_def at_def returned_def by auto
  from assms show "history t c = [Acquired] \<Longrightarrow>
           mode (threads c t) = Running \<and> mutex c = Some t
           \<and> mode (threads (step (Run t k) c) t) = InWait
           \<and> t \<in> set (condNewData (step (Run t k) c))
           \<and> mutex (step (Run t k) c) = None
           \<and> collection (step (Run t k) c) = collection c
           \<and> history t (step (Run t k) c) = [Acquired, Suspended]"
    unfolding querying_def by (auto simp: at_def cfg_defs history_def)
  from assms show "history t c = [Acquired, Suspended] \<Longrightarrow>
           mode (threads c t) = InWait \<or> mode (threads c t) = Woken"
    unfolding querying_def at_def by auto
  from assms show "ret (threads (step (Run t k) c) t) \<noteq> ret (threads c t) \<Longrightarrow>
           history t c = [Acquired, Suspended, Resumed] \<and> mutex c = Some t
           \<and> ret (threads (step (Run t k) c) t) = Flag (collection c = [])"
    unfolding querying_def by (auto simp: at_def cfg_defs split: if_splits)
  from assms show "history t c = [Acquired, Suspended, Resumed] \<Longrightarrow> mutex c = Some t"
    unfolding querying_def at_def by auto
qed

lemma solo_empty:
  assumes "calls t = Empty"
  shows "mode (threads (run [Run t 0, Run t 0] (init xs calls)) t) = InWait"
    and "returned t (run [Run t 0, Run t 0, Spurious t, Run t 0, Run t 0, Run t 0]
            (init [] calls))"
    and "ret (threads (run [Run t 0, Run t 0, Spurious t, Run t 0, Run t 0, Run t 0]
            (init [] calls)) t) = Flag True"
  using assms by (simp_all add: run_def init_def returned_def empty_deque_def cfg_defs)















section \<open>The claims\<close>

text \<open>
  C1. \<^verbatim>\<open>front()\<close> (and \<^verbatim>\<open>back()\<close>) should return a copy of the element at that end and
  never a pointer into the internal storage.  The code returns the address of the element,
  converted to the element type.  For \<^verbatim>\<open>TDequeConcurrent<bool>\<close> holding the one element
  \<^verbatim>\<open>false\<close>, \<^verbatim>\<open>front()\<close> returns \<^verbatim>\<open>true\<close>, the conversion of the non-null address,
  and so does \<^verbatim>\<open>back()\<close>; the element stays in the container.
\<close>

theorem front_returns_address:
  "ret (threads (run (solo 0) (init [False] (calls_of [Front bool_from_ptr]))) 0) = Elem True
   \<and> collection (run (solo 0) (init [False] (calls_of [Front bool_from_ptr]))) = [False]
   \<and> returned 0 (run (solo 0) (init [False] (calls_of [Front bool_from_ptr])))
   \<and> ret (threads (run (solo 0) (init [False] (calls_of [Back bool_from_ptr]))) 0) = Elem True"
  by (simp add: eval_defs bool_from_ptr_def)

text \<open>
  C2. Every blocking operation, \<^verbatim>\<open>empty()\<close> included, should re-check the non-empty condition
  in a loop after each wake-up and proceed only when the container is non-empty.
  \<^verbatim>\<open>empty()\<close> waits once and proceeds: called on an empty container and woken spuriously, it
  reads the container while it is still empty, returns \<^verbatim>\<open>true\<close>, and has been suspended
  exactly once.
\<close>

theorem empty_proceeds_on_empty:
  "ret (threads (run [Run 0 0, Run 0 0, Spurious 0, Run 0 0, Run 0 0, Run 0 0]
                   (init ([]::nat list) (calls_of [Empty]))) 0) = Flag True
   \<and> returned 0 (run [Run 0 0, Run 0 0, Spurious 0, Run 0 0, Run 0 0, Run 0 0]
                   (init ([]::nat list) (calls_of [Empty])))
   \<and> collection (run [Run 0 0, Run 0 0, Spurious 0, Run 0 0]
                   (init ([]::nat list) (calls_of [Empty]))) = []
   \<and> history 0 (run [Run 0 0, Run 0 0, Spurious 0, Run 0 0, Run 0 0, Run 0 0]
                   (init ([]::nat list) (calls_of [Empty])))
       = [Acquired, Suspended, Resumed, Released]"
  by (simp add: eval_defs)

text \<open>
  C3. When the construction of the new element throws in \<^verbatim>\<open>push_front\<close>, \<^verbatim>\<open>push_back\<close>,
  \<^verbatim>\<open>emplace_front\<close> or \<^verbatim>\<open>emplace_back\<close>, the caller gets the exception, the container
  is as it was, and the mutex is released.  In every interleaving with any other calls: the
  history of the call is a prefix of lock, throw, unlock; no step of the call changes the
  container; once the call has returned, its outcome is the exception, the history is complete
  and the caller does not own the mutex; the call moves on whenever the mutex is not owned by
  another thread.  Run alone it returns with the exception, the container unchanged and the
  mutex free.
\<close>

theorem throwing_insertion_changes_nothing:
  assumes "calls t = Push_front None \<or> calls t = Push_back None
      \<or> calls t = Emplace_front None \<or> calls t = Emplace_back None"
  shows "let c = run es (init xs calls) in
      prefix (history t c) [Acquired, Threw, Released]
    \<and> collection (step (Run t k) c) = collection c
    \<and> (returned t c \<longrightarrow>
          ret (threads c t) = Raised \<and> history t c = [Acquired, Threw, Released]
          \<and> mutex c \<noteq> Some t)
    \<and> ((mutex c = None \<or> mutex c = Some t) \<and> \<not> returned t c \<longrightarrow>
          length (code (threads (step (Run t k) c) t)) < length (code (threads c t)))
    \<and> returned t (run (solo t) (init xs calls))
    \<and> ret (threads (run (solo t) (init xs calls)) t) = Raised
    \<and> collection (run (solo t) (init xs calls)) = xs
    \<and> mutex (run (solo t) (init xs calls)) = None"
proof -
  note b = body_throwing[OF assms]
  note ph = adding_reach[where calls = calls and t = t and es = es and xs = xs, OF b]
  note r = adding_reach[where calls = calls and t = t and es = "solo t" and xs = xs, OF b]
  from throwing_history[OF ph] throwing_collection[OF ph, of k] throwing_returned[OF ph]
    adding_progress[OF ph, of k]
    solo_throwing[where calls = calls and t = t and xs = xs, OF b] throwing_returned[OF r]
  show ?thesis by (simp add: Let_def)
qed

theorem throwing_insertion_witness:
  "calls_of [Emplace_back None, Pop_front] 0 = Emplace_back None
   \<and> history 0 (run [Run 1 0, Run 0 0, Run 1 0, Run 1 0, Run 1 0, Run 0 0, Run 0 0, Run 0 0]
        (init [4, 5 :: nat] (calls_of [Emplace_back None, Pop_front])))
       = [Acquired, Threw, Released]
   \<and> ret (threads (run [Run 1 0, Run 0 0, Run 1 0, Run 1 0, Run 1 0, Run 0 0, Run 0 0, Run 0 0]
        (init [4, 5 :: nat] (calls_of [Emplace_back None, Pop_front]))) 0) = Raised
   \<and> collection (run [Run 1 0, Run 0 0, Run 1 0, Run 1 0, Run 1 0, Run 0 0, Run 0 0, Run 0 0]
        (init [4, 5 :: nat] (calls_of [Emplace_back None, Pop_front]))) = [5]
   \<and> mutex (run [Run 1 0, Run 0 0, Run 1 0, Run 1 0, Run 1 0, Run 0 0, Run 0 0, Run 0 0]
        (init [4, 5 :: nat] (calls_of [Emplace_back None, Pop_front]))) = None
   \<and> collection (run (solo 0) (init [4, 5 :: nat] (calls_of [Emplace_back None, Pop_front])))
       = [4, 5]"
  using throwing_insertion_changes_nothing
    [of "calls_of [Emplace_back None, Pop_front]" 0
      "[Run 1 0, Run 0 0, Run 1 0, Run 1 0, Run 1 0, Run 0 0, Run 0 0, Run 0 0]" "[4, 5 :: nat]" 0]
  by (simp add: eval_defs)





text \<open>
  C6. \<^verbatim>\<open>clear()\<close> never waits, leaves the container empty and notifies nobody, whatever the
  container holds.  In every interleaving: the call is never suspended on the condition
  variable; its history is a prefix of lock, clear, unlock (so it has no notification) and is all
  of it once the call has returned; the clearing step is made with the mutex held and empties
  the container, and the container is still empty when the call frees the mutex and returns; the
  call moves on whenever the mutex is not owned by another thread.  Run alone it returns with
  the container empty.
\<close>

theorem clear_never_waits:
  assumes "calls t = Clear"
  shows "let c = run es (init xs calls); c' = step (Run t k) c in
      mode (threads c t) = Running
    \<and> t \<notin> set (condNewData c)
    \<and> prefix (history t c) [Acquired, Cleared, Released]
    \<and> (returned t c \<longrightarrow> history t c = [Acquired, Cleared, Released])
    \<and> (history t c = [Acquired] \<longrightarrow>
          mutex c = Some t \<and> collection c' = [] \<and> history t c' = [Acquired, Cleared])
    \<and> (history t c = [Acquired, Cleared] \<longrightarrow>
          collection c = [] \<and> collection c' = [] \<and> mutex c' = None \<and> returned t c')
    \<and> ((mutex c = None \<or> mutex c = Some t) \<and> \<not> returned t c \<longrightarrow>
          length (code (threads c' t)) < length (code (threads c t)))
    \<and> returned t (run (solo t) (init xs calls))
    \<and> collection (run (solo t) (init xs calls)) = []"
proof -
  note ph = clearing_reach[where calls = calls and t = t and es = es and xs = xs, OF assms]
  have w: "t \<notin> set (condNewData (run es (init xs calls)))"
    using waiting_mode[OF coherent_reach, of t es xs calls] clearing_facts(1)[OF ph] by simp
  from clearing_facts(1)[OF ph] w clearing_facts(2,3)[OF ph] clearing_facts(4,5,6)[OF ph, of k]
    solo_clear[where calls = calls and t = t and xs = xs, OF assms]
  show ?thesis unfolding Let_def by blast
qed

theorem clear_never_waits_witness:
  "calls_of [Clear, Push_back (Some 3)] 0 = (Clear :: nat call)
   \<and> history 0 (run [Run 1 0, Run 1 0, Run 0 0, Run 1 0, Run 0 0, Run 0 0]
        (init [1, 2 :: nat] (calls_of [Clear, Push_back (Some 3)]))) = [Acquired, Cleared]
   \<and> collection (run [Run 1 0, Run 1 0, Run 0 0, Run 1 0, Run 0 0, Run 0 0]
        (init [1, 2 :: nat] (calls_of [Clear, Push_back (Some 3)]))) = []
   \<and> returned 0 (run [Run 1 0, Run 1 0, Run 0 0, Run 1 0, Run 0 0, Run 0 0, Run 0 0]
        (init [1, 2 :: nat] (calls_of [Clear, Push_back (Some 3)])))
   \<and> collection (run (solo 0) (init [] (calls_of [Clear, Push_back (Some (3::nat))]))) = []"
  using clear_never_waits
    [of "calls_of [Clear, Push_back (Some (3::nat))]" 0
      "[Run 1 0, Run 1 0, Run 0 0, Run 1 0, Run 0 0, Run 0 0]" "[1, 2 :: nat]" 0]
    clear_never_waits
    [of "calls_of [Clear, Push_back (Some (3::nat))]" 0 "[]" "[]" 0]
  by (simp add: eval_defs)

text \<open>
  C7. An insertion never blocks its caller and fails only when the construction of the element
  fails.  In every interleaving: the call is never suspended on the condition variable and never
  listed by it; it moves on whenever the mutex is not owned by another thread; once returned, its
  outcome is the exception exactly when the construction threw, and nothing otherwise.  Run
  alone it returns.
\<close>

theorem insertion_never_waits:
  assumes "calls t = Push_front a \<or> calls t = Push_back a \<or> calls t = Emplace_front a
    \<or> calls t = Emplace_back a"
  shows "let c = run es (init xs calls) in
      mode (threads c t) = Running
    \<and> t \<notin> set (condNewData c)
    \<and> Suspended \<notin> set (history t c)
    \<and> ((mutex c = None \<or> mutex c = Some t) \<and> \<not> returned t c \<longrightarrow>
          length (code (threads (step (Run t k) c) t)) < length (code (threads c t)))
    \<and> (returned t c \<longrightarrow>
          (ret (threads c t) = Raised) = (a = None) \<and> (ret (threads c t) = Void) = (a \<noteq> None))
    \<and> returned t (run (solo t) (init xs calls))"
proof -
  note b = body_inserting[OF assms]
  note ph = adding_reach[where calls = calls and t = t and es = es and xs = xs, OF b]
  have w: "t \<notin> set (condNewData (run es (init xs calls)))"
    using waiting_mode[OF coherent_reach, of t es xs calls] adding_running[OF ph] by simp
  from adding_running[OF ph] w adding_never_suspended[OF ph] adding_progress[OF ph, of k]
    adding_outcome[OF ph] solo_adding[where calls = calls and t = t and xs = xs, OF b]
  show ?thesis by (simp add: Let_def)
qed

theorem insertion_never_waits_witness:
  "calls_of [Push_front (Some 5), Emplace_back None] 0 = Push_front (Some (5::nat))
   \<and> calls_of [Push_front (Some 5), Emplace_back None] 1 = Emplace_back (None :: nat option)
   \<and> mode (threads (run [Run 1 0, Run 0 0, Run 1 0, Run 1 0, Run 0 0]
        (init [] (calls_of [Push_front (Some (5::nat)), Emplace_back None]))) 0) = Running
   \<and> ret (threads (run (solo 0 @ solo 1)
        (init [] (calls_of [Push_front (Some (5::nat)), Emplace_back None]))) 0) = Void
   \<and> ret (threads (run (solo 0 @ solo 1)
        (init [] (calls_of [Push_front (Some (5::nat)), Emplace_back None]))) 1) = Raised
   \<and> collection (run (solo 0 @ solo 1)
        (init [] (calls_of [Push_front (Some (5::nat)), Emplace_back None]))) = [5]"
  using insertion_never_waits
    [of "calls_of [Push_front (Some (5::nat)), Emplace_back None]" 0 "Some 5"
      "[Run 1 0, Run 0 0, Run 1 0, Run 1 0, Run 0 0]" "[]" 0]
    insertion_never_waits
    [of "calls_of [Push_front (Some (5::nat)), Emplace_back None]" 0 "Some 5"
      "solo 0 @ solo 1" "[]" 0]
    insertion_never_waits
    [of "calls_of [Push_front (Some (5::nat)), Emplace_back None]" 1 None
      "solo 0 @ solo 1" "[]" 0]
  by (simp add: eval_defs)

text \<open>
  C8. After \<^verbatim>\<open>push_back(1)\<close>, \<^verbatim>\<open>push_back(2)\<close>, \<^verbatim>\<open>push_front(0)\<close> a drain by
  \<^verbatim>\<open>front()\<close> and \<^verbatim>\<open>pop_front()\<close> should yield the elements front to back.  For
  \<^verbatim>\<open>TDequeConcurrent<bool>\<close> the container then holds \<^verbatim>\<open>false, true, true\<close>, the three
  calls of \<^verbatim>\<open>front()\<close> return \<^verbatim>\<open>true, true, true\<close> (the converted addresses), and the
  container ends empty.
\<close>

theorem drain_yields_addresses:
  "collection (run (solo 0 @ solo 1 @ solo 2) (init [] (calls_of drain_calls)))
     = [False, True, True]
   \<and> ret (threads (run drain_sched (init [] (calls_of drain_calls))) 3) = Elem True
   \<and> ret (threads (run drain_sched (init [] (calls_of drain_calls))) 5) = Elem True
   \<and> ret (threads (run drain_sched (init [] (calls_of drain_calls))) 7) = Elem True
   \<and> collection (run drain_sched (init [] (calls_of drain_calls))) = []"
  by (simp add: eval_defs drain_calls_def drain_sched_def bool_from_ptr_def)

text \<open>
  C9. What \<^verbatim>\<open>size()\<close> returns should be at least 1, whatever the container holds, because
  the call waits until the container is non-empty before it reads the count.  The code reads
  the \<^verbatim>\<open>size_t\<close> count and returns it as \<^verbatim>\<open>uint\<close>, which drops the bits above the low
  32: called on a container of \<open>2\<^sup>3\<^sup>2\<close> elements, \<^verbatim>\<open>size()\<close> passes the loop, returns 0,
  and the container still holds its \<open>2\<^sup>3\<^sup>2\<close> elements.
\<close>

theorem size_reports_zero:
  "returned 0 (run (solo 0) (init (replicate 4294967296 True) (calls_of [Size])))
   \<and> ret (threads (run (solo 0) (init (replicate 4294967296 True) (calls_of [Size]))) 0)
       = Count 0
   \<and> length (collection (run (solo 0) (init (replicate 4294967296 True) (calls_of [Size]))))
       = 4294967296"
  by (simp add: eval_defs)

text \<open>
  C10. \<^verbatim>\<open>empty()\<close> waits exactly once and unconditionally before it reads the container, also
  when the container is non-empty, and what it returns is the emptiness it reads after that
  wait, which can be \<^verbatim>\<open>true\<close>.  In every interleaving: the history of the call is a prefix
  of lock, suspension, resumption, unlock, and is all of it once the call has returned with a
  boolean; right after the lock the call suspends itself and frees the mutex, whatever the
  container holds; while suspended it does nothing by itself and leaves the suspension only
  through a spurious wake-up or the \<^verbatim>\<open>notify_one\<close> of another thread; from the resumption
  to the unlock it owns the mutex and no other thread changes the container; the only step that
  sets its return value is its own read, made after the resumption with the mutex held, and the
  value is whether the container is empty then.  Run alone it is suspended after two steps
  whatever the container holds, and on the empty container a spurious wake-up makes it return
  \<^verbatim>\<open>true\<close>.
\<close>

theorem empty_waits_exactly_once:
  assumes "calls t = Empty"
  shows "let c = run es (init xs calls); c' = step (Run t k) c in
      prefix (history t c) [Acquired, Suspended, Resumed, Released]
    \<and> (returned t c \<longrightarrow>
          history t c = [Acquired, Suspended, Resumed, Released]
          \<and> (\<exists>b. ret (threads c t) = Flag b))
    \<and> (history t c = [Acquired] \<longrightarrow>
          mode (threads c t) = Running \<and> mutex c = Some t
          \<and> mode (threads c' t) = InWait \<and> t \<in> set (condNewData c') \<and> mutex c' = None
          \<and> collection c' = collection c \<and> history t c' = [Acquired, Suspended])
    \<and> (mode (threads c t) = InWait \<longrightarrow>
          c' = c
          \<and> (\<forall>e. mode (threads (step e c) t) \<noteq> InWait \<longrightarrow>
                mode (threads (step e c) t) = Woken \<and>
                (e = Spurious t \<or>
                 (\<exists>u j rest. e = Run u j \<and> u \<noteq> t \<and> mode (threads c u) = Running
                    \<and> code (threads c u) = NotifyOne # rest))))
    \<and> (history t c = [Acquired, Suspended, Resumed] \<longrightarrow>
          mutex c = Some t
          \<and> (\<forall>e. \<not> runs t e \<longrightarrow> collection (step e c) = collection c))
    \<and> (ret (threads c' t) \<noteq> ret (threads c t) \<longrightarrow>
          history t c = [Acquired, Suspended, Resumed] \<and> mutex c = Some t
          \<and> ret (threads c' t) = Flag (collection c = []))
    \<and> (\<forall>e. \<not> runs t e \<longrightarrow> ret (threads (step e c) t) = ret (threads c t))
    \<and> mode (threads (run [Run t 0, Run t 0] (init xs calls)) t) = InWait
    \<and> returned t (run [Run t 0, Run t 0, Spurious t, Run t 0, Run t 0, Run t 0]
          (init [] calls))
    \<and> ret (threads (run [Run t 0, Run t 0, Spurious t, Run t 0, Run t 0, Run t 0]
          (init [] calls)) t) = Flag True"
proof -
  define c where "c = run es (init xs calls)"
  have ph: "querying c t"
    unfolding c_def by (rule querying_reach[where calls = calls and t = t, OF assms])
  have coh: "coherent c" unfolding c_def by (rule coherent_reach)
  note s = solo_empty[where calls = calls and t = t, OF assms]
  have "prefix (history t c) [Acquired, Suspended, Resumed, Released]
    \<and> (returned t c \<longrightarrow>
          history t c = [Acquired, Suspended, Resumed, Released]
          \<and> (\<exists>b. ret (threads c t) = Flag b))
    \<and> (history t c = [Acquired] \<longrightarrow>
          mode (threads c t) = Running \<and> mutex c = Some t
          \<and> mode (threads (step (Run t k) c) t) = InWait
          \<and> t \<in> set (condNewData (step (Run t k) c)) \<and> mutex (step (Run t k) c) = None
          \<and> collection (step (Run t k) c) = collection c
          \<and> history t (step (Run t k) c) = [Acquired, Suspended])"
    using querying_facts(1,2)[OF ph] querying_facts(3)[OF ph, of k] by blast
  moreover have "mode (threads c t) = InWait \<longrightarrow>
          step (Run t k) c = c
          \<and> (\<forall>e. mode (threads (step e c) t) \<noteq> InWait \<longrightarrow>
                mode (threads (step e c) t) = Woken \<and>
                (e = Spurious t \<or>
                 (\<exists>u j rest. e = Run u j \<and> u \<noteq> t \<and> mode (threads c u) = Running
                    \<and> code (threads c u) = NotifyOne # rest)))"
    using suspended_idle[of c t k] wake_cause[OF coh, of t] by blast
  moreover have "history t c = [Acquired, Suspended, Resumed] \<longrightarrow>
          mutex c = Some t
          \<and> (\<forall>e. \<not> runs t e \<longrightarrow> collection (step e c) = collection c)"
    using querying_facts(6)[OF ph] others_step(6)[OF coh] by blast
  moreover have "ret (threads (step (Run t k) c) t) \<noteq> ret (threads c t) \<longrightarrow>
          history t c = [Acquired, Suspended, Resumed] \<and> mutex c = Some t
          \<and> ret (threads (step (Run t k) c) t) = Flag (collection c = [])"
    using querying_facts(5)[OF ph, of k] by blast
  moreover have "\<forall>e. \<not> runs t e \<longrightarrow> ret (threads (step e c) t) = ret (threads c t)"
    using others_step(2)[OF coh] by blast
  ultimately show ?thesis unfolding Let_def c_def[symmetric] using s by blast
qed

theorem empty_waits_exactly_once_witness:
  "calls_of [Empty, Push_back (Some 1)] 0 = (Empty :: nat call)
   \<and> mode (threads (run [Run 0 0, Run 0 0]
        (init [3] (calls_of [Empty, Push_back (Some (1::nat))]))) 0) = InWait
   \<and> collection (run [Run 0 0, Run 0 0]
        (init [3] (calls_of [Empty, Push_back (Some (1::nat))]))) = [3]
   \<and> ret (threads (run [Run 0 0, Run 0 0, Run 1 0, Run 1 0, Run 1 0, Run 1 0, Run 0 0, Run 0 0,
          Run 0 0]
        (init [3] (calls_of [Empty, Push_back (Some (1::nat))]))) 0) = Flag False
   \<and> history 0 (run [Run 0 0, Run 0 0, Run 1 0, Run 1 0, Run 1 0, Run 1 0, Run 0 0, Run 0 0,
          Run 0 0]
        (init [3] (calls_of [Empty, Push_back (Some (1::nat))])))
       = [Acquired, Suspended, Resumed, Released]
   \<and> ret (threads (run [Run 0 0, Run 0 0, Spurious 0, Run 0 0, Run 0 0, Run 0 0]
        (init [] (calls_of [Empty, Push_back (Some (1::nat))]))) 0) = Flag True"
  using empty_waits_exactly_once
    [of "calls_of [Empty, Push_back (Some (1::nat))]" 0 "[Run 0 0, Run 0 0]" "[3]" 0]
    empty_waits_exactly_once
    [of "calls_of [Empty, Push_back (Some (1::nat))]" 0
      "[Run 0 0, Run 0 0, Run 1 0, Run 1 0, Run 1 0, Run 1 0, Run 0 0, Run 0 0, Run 0 0]"
      "[3]" 0]
  by (simp add: eval_defs)

end
